theory Spec2Isabelle
  imports Main
begin

section \<open>Errors and panics\<close>

text \<open>
  Go's \<^verbatim>\<open>error\<close> is an interface. The only implementation in the package is
  \<^verbatim>\<open>GeneratorError\<close> (generator\_error.go), a struct with the fields \<^verbatim>\<open>ErrorStr\<close>
  and \<^verbatim>\<open>Cause\<close>. An error of any other implementation is represented by the string
  its \<^verbatim>\<open>Error()\<close> method returns (\<open>Foreign\<close>). The field \<^verbatim>\<open>Cause\<close> has
  interface type, so it can be nil: \<open>None\<close>.
\<close>

datatype error =
    is_Foreign: Foreign string
  | is_GeneratorError: GeneratorError (ErrorStr: string) (Cause: "error option")

text \<open>
  A panic is an outcome of its own. The three panics the package can meet: a method
  called on a nil interface value, \<^verbatim>\<open>make\<close> with a negative length, and a value
  passed to \<^verbatim>\<open>panic\<close> by a generator.
\<close>

datatype panic =
    NilPointerDereference
  | MakeSliceLenOutOfRange
  | PanicValue error

text \<open>
  \<^verbatim>\<open>func generatorError(cause error, format string, args ...interface{}) error\<close>:
  the message is the result of \<^verbatim>\<open>fmt.Sprintf(format, args...)\<close>, taken here as
  already formatted.
\<close>

definition generatorError :: "error option \<Rightarrow> string \<Rightarrow> error" where
  "generatorError cause msg = GeneratorError msg cause"

text \<open>
  \<^verbatim>\<open>func (err GeneratorError) Error() string {
      return fmt.Sprintf("%s\ncaused by %s", err.ErrorStr, err.Cause.Error()) }\<close>

  The argument \<^verbatim>\<open>err.Cause.Error()\<close> is evaluated first; on a nil \<^verbatim>\<open>Cause\<close>
  the method call panics, and a panic of the cause's own rendering propagates.
\<close>

fun Error :: "error \<Rightarrow> panic + string" where
  "Error (Foreign msg) = Inr msg"
| "Error (GeneratorError msg None) = Inl NilPointerDereference"
| "Error (GeneratorError msg (Some cause)) =
     (case Error cause of
        Inl p \<Rightarrow> Inl p
      | Inr rendered \<Rightarrow> Inr (msg @ [CHR 0x0A] @ ''caused by '' @ rendered))"

text \<open>A chain of wrappers around an innermost error, outermost message first.\<close>

fun wrap_all :: "string list \<Rightarrow> error \<Rightarrow> error" where
  "wrap_all [] inner = inner"
| "wrap_all (msg # msgs) inner = generatorError (Some (wrap_all msgs inner)) msg"

section \<open>Generators\<close>

text \<open>
  The interface \<^verbatim>\<open>Generator\<close> is declared outside the two files; the executors
  use one method of it, \<^verbatim>\<open>Generate()\<close>, whose result is written to a
  \<^verbatim>\<open>bytes.Buffer\<close> and stored in a \<^verbatim>\<open>[]string\<close>: it returns one string.
  The method body is a parameter here. It may read and change whatever the generator can
  reach (its random source, counters, anything shared): the world \<open>'w\<close>. It returns a
  string or panics. An interface value may be nil (\<open>None\<close>), and a method call on it
  panics.
\<close>

type_synonym 'w Generator = "('w \<Rightarrow> (panic + string) \<times> 'w) option"

fun Generate :: "'w Generator \<Rightarrow> 'w \<Rightarrow> (panic + string) \<times> 'w" where
  "Generate None w = (Inl NilPointerDereference, w)"
| "Generate (Some body) w = body w"

text \<open>
  \<^verbatim>\<open>type GeneratorExecutor interface { Execute(generators []Generator) string }\<close>:
  an executor is given by its \<^verbatim>\<open>Execute\<close> method. \<open>Inr\<close> is the string returned,
  \<open>Inl\<close> a panic that leaves \<^verbatim>\<open>Execute\<close>; the signature has no error result.
\<close>

type_synonym 'w GeneratorExecutor = "'w Generator list \<Rightarrow> 'w \<Rightarrow> (panic + string) \<times> 'w"

section \<open>The serial executor\<close>

text \<open>
  \<^verbatim>\<open>func (serialExecutor) Execute(generators []Generator) string {
      var buffer bytes.Buffer
      numGens := len(generators)
      for i := 0; i < numGens; i++ {
          buffer.WriteString(generators[i].Generate())
      }
      return buffer.String() }\<close>

  The loop, with \<open>numGens\<close> the length of the slice, so that \<open>generators ! i\<close> is
  always in range. A panic of \<^verbatim>\<open>Generate\<close> is not recovered: it leaves the loop
  and the function with the panic's own value.
\<close>

function serial_loop :: "'w Generator list \<Rightarrow> nat \<Rightarrow> string \<Rightarrow> 'w \<Rightarrow> (panic + string) \<times> 'w" where
  "serial_loop generators i buffer w =
     (if i < length generators then
        (case Generate (generators ! i) w of
           (Inl p, w') \<Rightarrow> (Inl p, w')
         | (Inr s, w') \<Rightarrow> serial_loop generators (i + 1) (buffer @ s) w')
      else (Inr buffer, w))"
  by pat_completeness auto
termination
  by (relation "measure (\<lambda>(generators, i, buffer, w). length generators - i)") auto

declare serial_loop.simps [simp del]

definition serialExecutor_Execute :: "'w GeneratorExecutor" where
  "serialExecutor_Execute generators w = serial_loop generators 0 [] w"

section \<open>The fork-join executor\<close>

text \<open>
  \<^verbatim>\<open>func (forkJoinExecutor) Execute(generators []Generator) string {
      numGens := len(generators)
      results := make([]string, numGens, numGens)
      var waiter sync.WaitGroup
      waiter.Add(numGens)
      for i := 0; i < numGens; i++ {
          go func(i int) {
              defer waiter.Done()
              results[i] = generators[i].Generate()
          }(i)
      }
      waiter.Wait()
      return strings.Join(results, "") }\<close>

  The \<^verbatim>\<open>for\<close> loop starts one goroutine for each index, in index order.
\<close>

function launch :: "nat \<Rightarrow> nat \<Rightarrow> nat list \<Rightarrow> nat list" where
  "launch numGens i units =
     (if i < numGens then launch numGens (i + 1) (units @ [i]) else units)"
  by pat_completeness auto
termination
  by (relation "measure (\<lambda>(numGens, i, units). numGens - i)") auto

declare launch.simps [simp del]

text \<open>
  The goroutines run in an order the scheduler chooses. A schedule lists the launched
  units in the order in which their calls of \<^verbatim>\<open>Generate\<close> take effect and
  complete; every launched unit occurs once, since \<^verbatim>\<open>waiter.Wait()\<close> returns only
  after every unit has called \<^verbatim>\<open>Done\<close>. Calls of \<^verbatim>\<open>Generate\<close> are taken as
  atomic with respect to each other.
\<close>

definition interleaving :: "nat \<Rightarrow> nat list \<Rightarrow> bool" where
  "interleaving numGens sched \<longleftrightarrow> distinct sched \<and> set sched = set (launch numGens 0 [])"

text \<open>
  A unit whose \<^verbatim>\<open>Generate\<close> panics stores nothing: slot \<open>i\<close> keeps the empty
  string \<^verbatim>\<open>make\<close> put there. Its deferred \<^verbatim>\<open>waiter.Done()\<close> runs, and then the
  panic, which nothing recovers, ends the program. The other goroutines are not
  cancelled: they go on until the program has ended, and so does the goroutine that
  waits. \<open>grace\<close> is the number of further steps taken before the program has ended,
  a step being a unit that completes or, once every unit is done,
  \<^verbatim>\<open>waiter.Wait()\<close> returning and \<^verbatim>\<open>Execute\<close> returning the joined slots. It is
  the scheduler's choice, as the order of the units is. With no step left the outcome
  is the panic \<open>p\<close> of the first unit that failed.
\<close>

fun wind_down ::
  "'w Generator list \<Rightarrow> nat \<Rightarrow> panic \<Rightarrow> nat list \<Rightarrow> string list \<Rightarrow> 'w \<Rightarrow> (panic + string list) \<times> 'w" where
  "wind_down generators 0 p sched results w = (Inl p, w)"
| "wind_down generators (Suc grace) p [] results w = (Inr results, w)"
| "wind_down generators (Suc grace) p (i # sched) results w =
     (case Generate (generators ! i) w of
        (Inl q, w') \<Rightarrow> wind_down generators grace p sched results w'
      | (Inr s, w') \<Rightarrow> wind_down generators grace p sched (results[i := s]) w')"

text \<open>
  The units in schedule order. Unit \<open>i\<close> stores its string in slot \<open>i\<close>. When every
  unit has stored its string, \<^verbatim>\<open>waiter.Wait()\<close> returns with the slots filled.
\<close>

fun run_goroutines ::
  "'w Generator list \<Rightarrow> nat \<Rightarrow> nat list \<Rightarrow> string list \<Rightarrow> 'w \<Rightarrow> (panic + string list) \<times> 'w" where
  "run_goroutines generators grace [] results w = (Inr results, w)"
| "run_goroutines generators grace (i # sched) results w =
     (case Generate (generators ! i) w of
        (Inl p, w') \<Rightarrow> wind_down generators grace p sched results w'
      | (Inr s, w') \<Rightarrow> run_goroutines generators grace sched (results[i := s]) w')"

text \<open>
  \<^verbatim>\<open>strings.Join(results, "")\<close> is \<open>concat results\<close>. \<open>Inl\<close> is the program
  ending with a panic before \<^verbatim>\<open>Execute\<close> has returned.
\<close>

definition forkJoinExecutor_Execute :: "nat list \<Rightarrow> nat \<Rightarrow> 'w GeneratorExecutor" where
  "forkJoinExecutor_Execute sched grace generators w =
     (let numGens = length generators;
          results = replicate numGens []
      in case run_goroutines generators grace sched results w of
           (Inl p, w') \<Rightarrow> (Inl p, w')
         | (Inr results', w') \<Rightarrow> (Inr (concat results'), w'))"

section \<open>Repeating one generator\<close>

text \<open>
  \<^verbatim>\<open>func executeGeneratorRepeatedly(executor GeneratorExecutor, generator Generator, n int) string {
      generators := make([]Generator, n, n)
      for i := 0; i < n; i++ {
          generators[i] = generator
      }
      return executor.Execute(generators) }\<close>

  \<^verbatim>\<open>make\<close> panics on a negative length and otherwise gives \<open>n\<close> zero values, nil
  for an interface type. Memory is taken as unbounded.
\<close>

definition make_generators :: "int \<Rightarrow> panic + 'w Generator list" where
  "make_generators n = (if n < 0 then Inl MakeSliceLenOutOfRange else Inr (replicate (nat n) None))"

function fill_loop :: "'w Generator list \<Rightarrow> 'w Generator \<Rightarrow> int \<Rightarrow> int \<Rightarrow> 'w Generator list" where
  "fill_loop generators generator i n =
     (if i < n then fill_loop (generators[nat i := generator]) generator (i + 1) n
      else generators)"
  by pat_completeness auto
termination
  by (relation "measure (\<lambda>(generators, generator, i, n). nat (n - i))") auto

declare fill_loop.simps [simp del]

definition executeGeneratorRepeatedly ::
  "'w GeneratorExecutor \<Rightarrow> 'w Generator \<Rightarrow> int \<Rightarrow> 'w \<Rightarrow> (panic + string) \<times> 'w" where
  "executeGeneratorRepeatedly executor generator n w =
     (case make_generators n of
        Inl p \<Rightarrow> (Inl p, w)
      | Inr generators \<Rightarrow> executor (fill_loop generators generator 0 n) w)"

section \<open>Observing the calls\<close>

text \<open>
  To say which generators an executor calls, and in which order, each generator is
  wrapped so that a call of its \<^verbatim>\<open>Generate\<close> also appends its index to a log kept
  beside the world. The executors are unchanged.
\<close>

definition traced :: "nat \<Rightarrow> 'w Generator \<Rightarrow> ('w \<times> nat list) Generator" where
  "traced i g = Some (\<lambda>(w, log). case Generate g w of (r, w') \<Rightarrow> (r, (w', log @ [i])))"

definition instrument :: "'w Generator list \<Rightarrow> ('w \<times> nat list) Generator list" where
  "instrument generators = map (\<lambda>(i, g). traced i g) (enumerate 0 generators)"

text \<open>
  The reference behaviour of section 4.1 of the specification: every generator called
  once, in list order, the results collected in that order, stopping at the first one
  that fails.
\<close>

fun run_in_order :: "'w Generator list \<Rightarrow> 'w \<Rightarrow> (panic + string list) \<times> 'w" where
  "run_in_order [] w = (Inr [], w)"
| "run_in_order (g # gs) w =
     (case Generate g w of
        (Inl p, w') \<Rightarrow> (Inl p, w')
      | (Inr s, w') \<Rightarrow>
          (case run_in_order gs w' of
             (Inl p, w'') \<Rightarrow> (Inl p, w'')
           | (Inr ss, w'') \<Rightarrow> (Inr (s # ss), w'')))"

text \<open>
  What each unit of the fork-join executor leaves in its slot, as pairs of index and
  string in completion order: the string its generator returned, or the empty string of
  \<^verbatim>\<open>make\<close> when its generator panicked.
\<close>

fun completions :: "'w Generator list \<Rightarrow> nat list \<Rightarrow> 'w \<Rightarrow> (nat \<times> string) list" where
  "completions generators [] w = []"
| "completions generators (i # sched) w =
     (case Generate (generators ! i) w of
        (Inl p, w') \<Rightarrow> (i, []) # completions generators sched w'
      | (Inr s, w') \<Rightarrow> (i, s) # completions generators sched w')"

text \<open>Generators for concrete runs: one that returns a fixed string, one that panics.\<close>

definition returning :: "string \<Rightarrow> 'w Generator" where
  "returning s = Some (\<lambda>w. (Inr s, w))"

definition failing :: "string \<Rightarrow> 'w Generator" where
  "failing msg = Some (\<lambda>w. (Inl (PanicValue (Foreign msg)), w))"

text \<open>
  A generator with state: it counts its calls in the world and returns as many
  \<open>a\<close> as there were calls before, then a bar. It never fails.
\<close>

definition counting :: "nat Generator" where
  "counting = Some (\<lambda>calls. (Inr (replicate calls CHR ''a'' @ ''|''), calls + 1))"

section \<open>The loops in closed form\<close>

lemma launch_upt: "launch numGens i units = units @ [i..<numGens]"
proof (induction numGens i units rule: launch.induct)
  case (1 numGens i units)
  show ?case
  proof (cases "i < numGens")
    case True
    with 1 show ?thesis by (subst launch.simps) (simp add: upt_conv_Cons)
  next
    case False
    then show ?thesis by (subst launch.simps) simp
  qed
qed

lemma interleaving_iff:
  "interleaving numGens sched \<longleftrightarrow> distinct sched \<and> set sched = {0..<numGens}"
  by (simp add: interleaving_def launch_upt)

lemma fill_loop_replicate:
  "0 \<le> i \<Longrightarrow> i \<le> n \<Longrightarrow> length generators = nat n \<Longrightarrow>
   fill_loop generators generator i n = take (nat i) generators @ replicate (nat (n - i)) generator"
proof (induction generators generator i n rule: fill_loop.induct)
  case (1 generators generator i n)
  show ?case
  proof (cases "i < n")
    case True
    have len: "nat i < length generators" using True 1(2) 1(4) by simp
    have step: "fill_loop (generators[nat i := generator]) generator (i + 1) n =
          take (nat (i + 1)) (generators[nat i := generator]) @ replicate (nat (n - (i + 1))) generator"
      using 1(1) [OF True] True 1(2) 1(4) by simp
    have idx: "nat (i + 1) = Suc (nat i)" using 1(2) by simp
    have cnt: "nat (n - i) = Suc (nat (n - (i + 1)))" using True by simp
    have tk: "take (Suc (nat i)) (generators[nat i := generator]) = take (nat i) generators @ [generator]"
      using len by (simp add: take_Suc_conv_app_nth)
    have "fill_loop generators generator i n = fill_loop (generators[nat i := generator]) generator (i + 1) n"
      using True by (subst fill_loop.simps) simp
    also have "\<dots> = (take (nat i) generators @ [generator]) @ replicate (nat (n - (i + 1))) generator"
      using step idx tk by simp
    also have "\<dots> = take (nat i) generators @ replicate (nat (n - i)) generator"
      unfolding cnt by simp
    finally show ?thesis .
  next
    case False
    with 1(3) have "i = n" by simp
    with 1(4) show ?thesis by (subst fill_loop.simps) simp
  qed
qed

lemma serial_loop_run_in_order:
  "i \<le> length generators \<Longrightarrow>
   serial_loop generators i buffer w =
     (case run_in_order (drop i generators) w of
        (Inl p, w') \<Rightarrow> (Inl p, w')
      | (Inr ss, w') \<Rightarrow> (Inr (buffer @ concat ss), w'))"
proof (induction generators i buffer w rule: serial_loop.induct)
  case (1 generators i buffer w)
  show ?case
  proof (cases "i < length generators")
    case True
    have d: "drop i generators = generators ! i # drop (Suc i) generators"
      using True by (simp add: Cons_nth_drop_Suc)
    obtain r w' where g: "Generate (generators ! i) w = (r, w')" by (cases "Generate (generators ! i) w")
    show ?thesis
    proof (cases r)
      case (Inl p)
      with g d True show ?thesis by (subst serial_loop.simps) simp
    next
      case (Inr s)
      have "serial_loop generators (i + 1) (buffer @ s) w' =
          (case run_in_order (drop (i + 1) generators) w' of
             (Inl p, w'') \<Rightarrow> (Inl p, w'')
           | (Inr ss, w'') \<Rightarrow> (Inr ((buffer @ s) @ concat ss), w''))"
        using 1(1) [OF True g [symmetric] Inr] True by simp
      with g d True Inr show ?thesis
        by (subst serial_loop.simps) (simp split: prod.splits sum.splits)
    qed
  next
    case False
    with 1(2) show ?thesis by (subst serial_loop.simps) simp
  qed
qed

lemma serialExecutor_Execute_run_in_order:
  "serialExecutor_Execute generators w =
     (case run_in_order generators w of
        (Inl p, w') \<Rightarrow> (Inl p, w')
      | (Inr ss, w') \<Rightarrow> (Inr (concat ss), w'))"
  by (simp add: serialExecutor_Execute_def serial_loop_run_in_order split: prod.splits sum.splits)

section \<open>The call log\<close>

lemma Generate_traced:
  "Generate (traced i g) (w, log) = (case Generate g w of (r, w') \<Rightarrow> (r, (w', log @ [i])))"
  by (simp add: traced_def)

lemma run_in_order_traced:
  "run_in_order gs w = (Inr ss, w') \<Longrightarrow>
   run_in_order (map (\<lambda>(i, g). traced i g) (enumerate k gs)) (w, log) =
     (Inr ss, (w', log @ [k..<k + length gs]))"
proof (induction gs arbitrary: k w log ss w')
  case Nil
  then show ?case by simp
next
  case (Cons g gs)
  obtain r w1 where g: "Generate g w = (r, w1)" by (cases "Generate g w")
  with Cons.prems obtain s where r: "r = Inr s" by (cases r) auto
  obtain r2 w2 where rest: "run_in_order gs w1 = (r2, w2)" by (cases "run_in_order gs w1")
  with Cons.prems g r obtain ss' where r2: "r2 = Inr ss'" by (cases r2) auto
  from Cons.prems g r rest r2 have eq: "ss = s # ss'" "w' = w2" by auto
  have "run_in_order (map (\<lambda>(i, g). traced i g) (enumerate (Suc k) gs)) (w1, log @ [k]) =
      (Inr ss', (w2, (log @ [k]) @ [Suc k..<Suc k + length gs]))"
    using Cons.IH rest r2 by blast
  moreover have "[k..<k + length (g # gs)] = k # [Suc k..<Suc k + length gs]"
    by (simp add: upt_conv_Cons del: upt_Suc)
  ultimately have "run_in_order (map (\<lambda>(i, g). traced i g) (enumerate (Suc k) gs)) (w1, log @ [k]) =
      (Inr ss', (w2, log @ [k..<k + length (g # gs)]))"
    by (simp del: upt_Suc length_Cons)
  with g r eq show ?case
    by (simp add: Generate_traced del: upt_Suc)
qed

lemma run_in_order_stops:
  "run_in_order pre w = (Inr outs, w1) \<Longrightarrow> Generate g w1 = (Inl p, w2) \<Longrightarrow>
   run_in_order (pre @ g # post) w = (Inl p, w2)"
proof (induction pre arbitrary: w outs)
  case Nil
  then show ?case by simp
next
  case (Cons a pre)
  obtain r wa where a: "Generate a w = (r, wa)" by (cases "Generate a w")
  with Cons.prems obtain s where r: "r = Inr s" by (cases r) auto
  obtain r2 wb where rest: "run_in_order pre wa = (r2, wb)" by (cases "run_in_order pre wa")
  with Cons.prems a r obtain ss' where r2: "r2 = Inr ss'" by (cases r2) auto
  from Cons.prems a r rest r2 have "wb = w1" by auto
  with Cons.IH rest r2 Cons.prems(2) have "run_in_order (pre @ g # post) wa = (Inl p, w2)" by blast
  with a r show ?case by simp
qed

lemma instrument_run_in_order:
  "run_in_order generators w = (Inr ss, w') \<Longrightarrow>
   run_in_order (instrument generators) (w, []) = (Inr ss, (w', [0..<length generators]))"
  using run_in_order_traced [of generators w ss w' 0 "[]"] by (simp add: instrument_def)

lemma instrument_stops:
  "run_in_order pre w = (Inr outs, w1) \<Longrightarrow> Generate g w1 = (Inl p, w2) \<Longrightarrow>
   run_in_order (instrument (pre @ g # post)) (w, []) = (Inl p, (w2, [0..<Suc (length pre)]))"
proof -
  assume pre: "run_in_order pre w = (Inr outs, w1)" and g: "Generate g w1 = (Inl p, w2)"
  have split: "instrument (pre @ g # post) =
      instrument pre @ traced (length pre) g # map (\<lambda>(i, g). traced i g) (enumerate (Suc (length pre)) post)"
    by (simp add: instrument_def enumerate_append_eq)
  have a: "run_in_order (instrument pre) (w, []) = (Inr outs, (w1, [0..<length pre]))"
    using pre by (rule instrument_run_in_order)
  have b: "Generate (traced (length pre) g) (w1, [0..<length pre]) = (Inl p, (w2, [0..<Suc (length pre)]))"
    using g by (simp add: Generate_traced)
  show ?thesis unfolding split using a b by (rule run_in_order_stops)
qed

section \<open>The goroutines in schedule order\<close>

lemma run_goroutines_fixed:
  "\<forall>i\<in>set sched. i < length results \<and> (\<forall>w. fst (Generate (generators ! i) w) = Inr (outs ! i)) \<Longrightarrow>
   \<exists>w'. run_goroutines generators grace sched results w =
     (Inr (map (\<lambda>j. if j \<in> set sched then outs ! j else results ! j) [0..<length results]), w')"
proof (induction sched arbitrary: results w)
  case Nil
  show ?case by (simp add: map_nth)
next
  case (Cons i sched)
  obtain r w1 where g: "Generate (generators ! i) w = (r, w1)"
    by (cases "Generate (generators ! i) w")
  have "fst (Generate (generators ! i) w) = Inr (outs ! i)" using Cons.prems by simp
  with g have r: "r = Inr (outs ! i)" by simp
  have i: "i < length results" using Cons.prems by simp
  have "\<forall>j\<in>set sched. j < length (results[i := outs ! i]) \<and>
      (\<forall>w. fst (Generate (generators ! j) w) = Inr (outs ! j))"
    using Cons.prems by simp
  from Cons.IH [OF this] obtain w' where rest:
    "run_goroutines generators grace sched (results[i := outs ! i]) w1 =
       (Inr (map (\<lambda>j. if j \<in> set sched then outs ! j else results[i := outs ! i] ! j)
          [0..<length (results[i := outs ! i])]), w')"
    by blast
  have "map (\<lambda>j. if j \<in> set sched then outs ! j else results[i := outs ! i] ! j)
          [0..<length (results[i := outs ! i])] =
        map (\<lambda>j. if j \<in> set (i # sched) then outs ! j else results ! j) [0..<length results]"
    using i by (auto simp: nth_list_update)
  with g r rest show ?case by simp
qed

lemma completions_fst: "map fst (completions generators sched w) = sched"
  by (induction sched arbitrary: w) (auto split: prod.splits sum.splits)

lemma slot_step:
  assumes "i \<notin> set sched" and "map fst c = sched"
    and "length results1 = length results" and "results1 ! i = v"
    and "\<forall>j. j \<noteq> i \<longrightarrow> results1 ! j = results ! j"
    and "\<forall>j<length results1. results' ! j =
          (case map_of c j of Some s \<Rightarrow> s | None \<Rightarrow> results1 ! j)"
  shows "\<forall>j<length results. results' ! j =
          (case map_of ((i, v) # c) j of Some s \<Rightarrow> s | None \<Rightarrow> results ! j)"
proof (intro allI impI)
  fix j assume j: "j < length results"
  with assms(3) assms(6) have v: "results' ! j =
      (case map_of c j of Some s \<Rightarrow> s | None \<Rightarrow> results1 ! j)" by simp
  have none: "map_of c i = None"
    using assms(1) assms(2) by (metis map_of_eq_None_iff set_map)
  show "results' ! j = (case map_of ((i, v) # c) j of Some s \<Rightarrow> s | None \<Rightarrow> results ! j)"
  proof (cases "j = i")
    case True
    with v none assms(4) show ?thesis by simp
  next
    case False
    with v assms(5) show ?thesis by (simp split: option.splits)
  qed
qed

lemma wind_down_completions:
  "distinct sched \<Longrightarrow> \<forall>i\<in>set sched. i < length results \<and> results ! i = [] \<Longrightarrow>
   wind_down generators grace p sched results w = (Inr results', w') \<Longrightarrow>
   length results' = length results \<and>
   (\<forall>j<length results. results' ! j =
      (case map_of (completions generators sched w) j of Some s \<Rightarrow> s | None \<Rightarrow> results ! j))"
proof (induction sched arbitrary: grace results w)
  case Nil
  then show ?case by (cases grace) simp_all
next
  case (Cons i sched)
  from Cons.prems(3) obtain g' where grace: "grace = Suc g'" by (cases grace) simp_all
  obtain r w1 where g: "Generate (generators ! i) w = (r, w1)"
    by (cases "Generate (generators ! i) w")
  have d: "distinct sched" and ni: "i \<notin> set sched" using Cons.prems(1) by simp_all
  have empty: "results ! i = []" using Cons.prems(2) by simp
  let ?c = "completions generators sched w1"
  have fst: "map fst ?c = sched" by (rule completions_fst)
  show ?case
  proof (cases r)
    case (Inl q)
    from Cons.prems(3) grace g Inl have rest:
      "wind_down generators g' p sched results w1 = (Inr results', w')" by simp
    have b: "\<forall>j\<in>set sched. j < length results \<and> results ! j = []" using Cons.prems(2) by simp
    note ih = Cons.IH [OF d b rest]
    have c: "completions generators (i # sched) w = (i, []) # ?c" using g Inl by simp
    have "\<forall>j<length results. results' ! j =
        (case map_of ((i, []) # ?c) j of Some s \<Rightarrow> s | None \<Rightarrow> results ! j)"
      using ni fst refl empty _ conjunct2 [OF ih] by (rule slot_step) simp
    with ih c show ?thesis by simp
  next
    case (Inr s)
    from Cons.prems(3) grace g Inr have rest:
      "wind_down generators g' p sched (results[i := s]) w1 = (Inr results', w')" by simp
    have i: "i < length results" using Cons.prems(2) by simp
    have b: "\<forall>j\<in>set sched. j < length (results[i := s]) \<and> results[i := s] ! j = []"
      using Cons.prems(2) ni by (auto simp: nth_list_update)
    note ih = Cons.IH [OF d b rest]
    have c: "completions generators (i # sched) w = (i, s) # ?c" using g Inr by simp
    have l: "length (results[i := s]) = length results" by simp
    have at: "results[i := s] ! i = s" using i by simp
    have "\<forall>j<length results. results' ! j =
        (case map_of ((i, s) # ?c) j of Some s \<Rightarrow> s | None \<Rightarrow> results ! j)"
      using ni fst l at _ conjunct2 [OF ih] by (rule slot_step) simp
    with ih c show ?thesis by simp
  qed
qed

lemma run_goroutines_completions:
  "distinct sched \<Longrightarrow> \<forall>i\<in>set sched. i < length results \<and> results ! i = [] \<Longrightarrow>
   run_goroutines generators grace sched results w = (Inr results', w') \<Longrightarrow>
   length results' = length results \<and>
   (\<forall>j<length results. results' ! j =
      (case map_of (completions generators sched w) j of Some s \<Rightarrow> s | None \<Rightarrow> results ! j))"
proof (induction sched arbitrary: results w)
  case Nil
  then show ?case by simp
next
  case (Cons i sched)
  obtain r w1 where g: "Generate (generators ! i) w = (r, w1)"
    by (cases "Generate (generators ! i) w")
  have d: "distinct sched" and ni: "i \<notin> set sched" using Cons.prems(1) by simp_all
  have empty: "results ! i = []" using Cons.prems(2) by simp
  let ?c = "completions generators sched w1"
  have fst: "map fst ?c = sched" by (rule completions_fst)
  show ?case
  proof (cases r)
    case (Inl q)
    from Cons.prems(3) g Inl have rest:
      "wind_down generators grace q sched results w1 = (Inr results', w')" by simp
    have b: "\<forall>j\<in>set sched. j < length results \<and> results ! j = []" using Cons.prems(2) by simp
    note ih = wind_down_completions [OF d b rest]
    have c: "completions generators (i # sched) w = (i, []) # ?c" using g Inl by simp
    have "\<forall>j<length results. results' ! j =
        (case map_of ((i, []) # ?c) j of Some s \<Rightarrow> s | None \<Rightarrow> results ! j)"
      using ni fst refl empty _ conjunct2 [OF ih] by (rule slot_step) simp
    with ih c show ?thesis by simp
  next
    case (Inr s)
    from Cons.prems(3) g Inr have rest:
      "run_goroutines generators grace sched (results[i := s]) w1 = (Inr results', w')" by simp
    have i: "i < length results" using Cons.prems(2) by simp
    have b: "\<forall>j\<in>set sched. j < length (results[i := s]) \<and> results[i := s] ! j = []"
      using Cons.prems(2) ni by (auto simp: nth_list_update)
    note ih = Cons.IH [OF d b rest]
    have c: "completions generators (i # sched) w = (i, s) # ?c" using g Inr by simp
    have l: "length (results[i := s]) = length results" by simp
    have at: "results[i := s] ! i = s" using i by simp
    have "\<forall>j<length results. results' ! j =
        (case map_of ((i, s) # ?c) j of Some s \<Rightarrow> s | None \<Rightarrow> results ! j)"
      using ni fst l at _ conjunct2 [OF ih] by (rule slot_step) simp
    with ih c show ?thesis by simp
  qed
qed

lemma forkJoin_slots:
  assumes "interleaving (length generators) sched"
    and "forkJoinExecutor_Execute sched grace generators w = (Inr joined, w')"
  shows "joined = concat (map (\<lambda>i. the (map_of (completions generators sched w) i))
                              [0..<length generators])"
proof -
  let ?n = "length generators"
  let ?c = "completions generators sched w"
  have d: "distinct sched" and s: "set sched = {0..<?n}"
    using assms(1) by (simp_all add: interleaving_iff)
  obtain r w1 where run: "run_goroutines generators grace sched (replicate ?n []) w = (r, w1)"
    by (cases "run_goroutines generators grace sched (replicate ?n []) w")
  with assms(2) obtain results where r: "r = Inr results" and j: "joined = concat results"
    by (cases r) (auto simp: forkJoinExecutor_Execute_def)
  have b: "\<forall>i\<in>set sched. i < length (replicate ?n ([]::string)) \<and> replicate ?n ([]::string) ! i = []"
    using s by simp
  note c = run_goroutines_completions [OF d b run [unfolded r]]
  have fst: "map fst ?c = sched" by (rule completions_fst)
  have len: "length results = ?n" using c by simp
  have "\<forall>i<?n. results ! i = the (map_of ?c i)"
  proof (intro allI impI)
    fix i assume i: "i < ?n"
    then have "i \<in> set (map fst ?c)" using fst s by simp
    then obtain v where "map_of ?c i = Some v"
      by (metis map_of_eq_None_iff not_Some_eq set_map)
    with c i show "results ! i = the (map_of ?c i)" by simp
  qed
  then have "results = map (\<lambda>i. the (map_of ?c i)) [0..<?n]"
    using len by (intro nth_equalityI) simp_all
  with j show ?thesis by simp
qed

lemma run_in_order_length:
  "run_in_order gs w = (Inr ss, w') \<Longrightarrow> length ss = length gs"
proof (induction gs arbitrary: w ss)
  case Nil
  then show ?case by simp
next
  case (Cons g gs)
  then show ?case
    by (auto split: prod.splits sum.splits)
qed

lemma run_in_order_fixed:
  "length outs = length gs \<Longrightarrow>
   \<forall>i<length gs. \<forall>w. fst (Generate (gs ! i) w) = Inr (outs ! i) \<Longrightarrow>
   \<exists>w'. run_in_order gs w = (Inr outs, w')"
proof (induction gs arbitrary: outs w)
  case Nil
  then show ?case by simp
next
  case (Cons g gs)
  from Cons.prems(1) obtain s ss where outs: "outs = s # ss" by (cases outs) auto
  obtain r w1 where g: "Generate g w = (r, w1)" by (cases "Generate g w")
  have "fst (Generate ((g # gs) ! 0) w) = Inr (outs ! 0)" using Cons.prems(2) by blast
  with g outs have r: "r = Inr s" by simp
  have len: "length ss = length gs" using Cons.prems(1) outs by simp
  have "\<forall>i<length gs. \<forall>w. fst (Generate (gs ! i) w) = Inr (ss ! i)"
  proof (intro allI impI)
    fix i w assume "i < length gs"
    then have "Suc i < length (g # gs)" by simp
    with Cons.prems(2) have "fst (Generate ((g # gs) ! Suc i) w) = Inr (outs ! Suc i)" by blast
    with outs show "fst (Generate (gs ! i) w) = Inr (ss ! i)" by simp
  qed
  from Cons.IH [OF len this] obtain w' where "run_in_order gs w1 = (Inr ss, w')" by blast
  with g r outs show ?case by simp
qed

lemma forkJoin_fixed:
  assumes "interleaving (length generators) sched"
    and "length outs = length generators"
    and "\<forall>i<length generators. \<forall>w. fst (Generate (generators ! i) w) = Inr (outs ! i)"
  shows "fst (forkJoinExecutor_Execute sched grace generators w) = Inr (concat outs)"
proof -
  let ?n = "length generators"
  have s: "set sched = {0..<?n}" using assms(1) by (simp add: interleaving_iff)
  have "\<forall>i\<in>set sched. i < length (replicate ?n ([]::string)) \<and>
      (\<forall>w. fst (Generate (generators ! i) w) = Inr (outs ! i))"
    using s assms(3) by simp
  from run_goroutines_fixed [OF this] obtain w' where run:
    "run_goroutines generators grace sched (replicate ?n []) w =
       (Inr (map (\<lambda>j. if j \<in> set sched then outs ! j else replicate ?n [] ! j)
          [0..<length (replicate ?n ([]::string))]), w')"
    by blast
  have "map (\<lambda>j. if j \<in> set sched then outs ! j else replicate ?n [] ! j)
          [0..<length (replicate ?n ([]::string))] = map (\<lambda>j. outs ! j) [0..<length outs]"
    using s assms(2) by simp
  also have "\<dots> = outs" by (rule map_nth)
  finally show ?thesis using run by (simp add: forkJoinExecutor_Execute_def)
qed

section \<open>Rendering of errors\<close>

lemma Error_wrap_all:
  "Error inner = Inr s \<Longrightarrow>
   Error (wrap_all msgs inner) =
     Inr (concat (map (\<lambda>m. m @ [CHR 0x0A] @ ''caused by '') msgs) @ s)"
  by (induction msgs) (simp_all add: generatorError_def)

text \<open>
  Claim C6. A \<open>GeneratorError\<close> whose cause is present and renders to \<open>s\<close> renders
  to its own message, a line break, \<open>caused by\<close> and \<open>s\<close>; a chain of wrappers
  around a rendering error shows every layer in order, outermost first; and the message
  \<open>building pattern\<close> around a cause \<open>invalid token\<close> renders as two lines, the
  second being \<open>caused by invalid token\<close>.
\<close>

theorem Error_renders_causal_chain:
  "(Error cause = Inr s \<longrightarrow>
      Error (generatorError (Some cause) msg) = Inr (msg @ [CHR 0x0A] @ ''caused by '' @ s))
   \<and> (Error inner = Inr s \<longrightarrow>
      Error (wrap_all msgs inner) =
        Inr (concat (map (\<lambda>m. m @ [CHR 0x0A] @ ''caused by '') msgs) @ s))
   \<and> Error (generatorError (Some (Foreign ''invalid token'')) ''building pattern'') =
        Inr (''building pattern'' @ [CHR 0x0A] @ ''caused by invalid token'')"
  by (simp add: generatorError_def Error_wrap_all)

theorem Error_renders_causal_chain_witness:
  "Error (Foreign ''c'') = Inr ''c''
   \<and> Error (generatorError (Some (Foreign ''c'')) ''b'') = Inr (''b'' @ [CHR 0x0A] @ ''caused by c'')
   \<and> Error (wrap_all [''a'', ''b''] (Foreign ''c'')) =
       Inr (''a'' @ [CHR 0x0A] @ ''caused by b'' @ [CHR 0x0A] @ ''caused by c'')"
  using Error_renders_causal_chain [of "Foreign ''c''" "''c''" "''b''" "Foreign ''c''" "[''a'', ''b'']"]
  by simp

text \<open>
  Claim C7, evaluated on the code: a leaf \<open>GeneratorError\<close>, whose \<open>Cause\<close> is nil,
  does not render to its message; \<open>Error\<close> panics on the nil interface value.
\<close>

theorem Error_leaf_panics:
  "Error (generatorError None ''invalid pattern'') = Inl NilPointerDereference"
  by (simp add: generatorError_def)

section \<open>The two executors on generators that succeed\<close>

text \<open>
  Claim C1 as stated fails for generators that share state. Three copies of the
  counting generator all succeed under both executors, yet the serial executor returns
  \<open>|a|aa|\<close> and the fork-join executor, when its units complete in the order 2, 0, 1,
  returns \<open>a|aa||\<close>: unit 2 ran first and stored the string of the first call in the
  last slot.
\<close>

theorem executors_differ_counterexample:
  "interleaving 3 [2, 0, 1]
   \<and> serialExecutor_Execute [counting, counting, counting] 0 = (Inr ''|a|aa|'', 3)
   \<and> forkJoinExecutor_Execute [2, 0, 1] 0 [counting, counting, counting] 0 = (Inr ''a|aa||'', 3)
   \<and> fst (serialExecutor_Execute [counting, counting, counting] 0) \<noteq>
       fst (forkJoinExecutor_Execute [2, 0, 1] 0 [counting, counting, counting] 0)"
proof -
  have i: "interleaving 3 [2, 0, 1]" by (auto simp: interleaving_iff)
  have s: "serialExecutor_Execute [counting, counting, counting] 0 = (Inr ''|a|aa|'', 3)"
    by (simp add: serialExecutor_Execute_run_in_order counting_def numeral_2_eq_2)
  have f: "forkJoinExecutor_Execute [2, 0, 1] 0 [counting, counting, counting] 0 = (Inr ''a|aa||'', 3)"
    by (simp add: forkJoinExecutor_Execute_def counting_def numeral_2_eq_2)
  from i s f show ?thesis by simp
qed

text \<open>
  Claim C1, amended. Let every generator of the list have an output of its own: called in
  any world, generator \<open>i\<close> returns \<open>outs ! i\<close>, so that its result depends neither on
  shared state nor on the order of the calls. Then the serial executor and the fork-join
  executor, under every schedule of its units, return the same string, the concatenation
  of the outputs in list order. The list may be empty.
\<close>

theorem executors_agree_on_successful_generators:
  assumes "length outs = length generators"
    and "\<forall>i<length generators. \<forall>w. fst (Generate (generators ! i) w) = Inr (outs ! i)"
    and "interleaving (length generators) sched"
  shows "fst (serialExecutor_Execute generators w) = Inr (concat outs)
       \<and> fst (forkJoinExecutor_Execute sched grace generators w) = Inr (concat outs)"
proof -
  from run_in_order_fixed [OF assms(1) assms(2)] obtain w' where
    "run_in_order generators w = (Inr outs, w')" by blast
  then have "fst (serialExecutor_Execute generators w) = Inr (concat outs)"
    by (simp add: serialExecutor_Execute_run_in_order)
  moreover have "fst (forkJoinExecutor_Execute sched grace generators w) = Inr (concat outs)"
    using assms(3) assms(1) assms(2) by (rule forkJoin_fixed)
  ultimately show ?thesis by simp
qed

theorem executors_agree_on_successful_generators_witness:
  "fst (serialExecutor_Execute [returning ''a'', returning ''b'', returning ''c''] ()) = Inr ''abc''
   \<and> fst (forkJoinExecutor_Execute [2, 0, 1] 0 [returning ''a'', returning ''b'', returning ''c''] ()) = Inr ''abc''"
proof -
  let ?gs = "[returning ''a'', returning ''b'', returning ''c''] :: unit Generator list"
  let ?outs = "[''a'', ''b'', ''c'']"
  have l: "length ?outs = length ?gs" by simp
  have f: "\<forall>i<length ?gs. \<forall>w. fst (Generate (?gs ! i) w) = Inr (?outs ! i)"
    by (simp add: returning_def less_Suc_eq all_conj_distrib)
  have i: "interleaving (length ?gs) [2, 0, 1]" by (auto simp: interleaving_iff)
  show ?thesis
    using executors_agree_on_successful_generators [OF l f i, of "()" 0] by simp
qed

section \<open>The order of the joined results\<close>

text \<open>
  Claim C2. Whatever the schedule of the units, when the fork-join executor returns, the
  string is the concatenation, for the indices 0, 1, ... in this order, of what the unit
  of that index left in its slot. The order in which the units completed, which is the
  schedule, plays no part. The generators are arbitrary: their results may depend on the
  world and so on the schedule.
\<close>

theorem forkJoin_joins_in_task_order:
  assumes "interleaving (length generators) sched"
    and "forkJoinExecutor_Execute sched grace generators w = (Inr joined, w')"
  shows "map fst (completions generators sched w) = sched
       \<and> joined = concat (map (\<lambda>i. the (map_of (completions generators sched w) i))
                              [0..<length generators])"
  using forkJoin_slots [OF assms] by (simp add: completions_fst)

theorem forkJoin_joins_in_task_order_witness:
  "forkJoinExecutor_Execute [2, 0, 1] 0 [returning ''a'', returning ''b'', returning ''c''] () = (Inr ''abc'', ())
   \<and> completions [returning ''a'', returning ''b'', returning ''c''] [2, 0, 1] () =
       [(2, ''c''), (0, ''a''), (1, ''b'')]"
proof -
  let ?gs = "[returning ''a'', returning ''b'', returning ''c''] :: unit Generator list"
  have i: "interleaving (length ?gs) [2, 0, 1]" by (auto simp: interleaving_iff)
  have e: "forkJoinExecutor_Execute [2, 0, 1] 0 ?gs () = (Inr ''abc'', ())"
    by (simp add: forkJoinExecutor_Execute_def returning_def)
  show ?thesis
    using forkJoin_joins_in_task_order [OF i e] e by (simp add: returning_def)
qed

section \<open>The calls of the serial executor\<close>

text \<open>
  Claim C3. When every call of \<^verbatim>\<open>Generate\<close> succeeds, with the results \<open>outs\<close>,
  the serial executor returns their concatenation in list order and leaves the world as
  the calls in list order leave it; there is one result for each generator; and the log of
  the calls is 0, 1, ..., N-1: every generator is called once, in list order.
\<close>

theorem serial_calls_each_once_in_order:
  assumes "run_in_order generators w = (Inr outs, w')"
  shows "serialExecutor_Execute generators w = (Inr (concat outs), w')
       \<and> length outs = length generators
       \<and> serialExecutor_Execute (instrument generators) (w, []) =
           (Inr (concat outs), (w', [0..<length generators]))"
  using assms instrument_run_in_order [OF assms] run_in_order_length [OF assms]
  by (simp add: serialExecutor_Execute_run_in_order)

theorem serial_calls_each_once_in_order_witness:
  "serialExecutor_Execute (instrument [returning ''a'', returning ''b'', returning ''c'']) ((), []) =
     (Inr ''abc'', ((), [0, 1, 2]))"
proof -
  let ?gs = "[returning ''a'', returning ''b'', returning ''c''] :: unit Generator list"
  have r: "run_in_order ?gs () = (Inr [''a'', ''b'', ''c''], ())" by (simp add: returning_def)
  show ?thesis using serial_calls_each_once_in_order [OF r] by (simp add: upt_rec)
qed

section \<open>A failing generator under the serial executor\<close>

text \<open>
  Claim C4 as stated fails. \<^verbatim>\<open>Generate\<close> and \<^verbatim>\<open>Execute\<close> return a string only,
  so a generator can fail only by a panic, and the serial executor does not recover it:
  with the generators \<open>a\<close>, a panic \<open>boom\<close>, \<open>c\<close> the outcome is the panic
  \<open>boom\<close> itself, not a \<open>GeneratorError\<close> around it, and no index is attached.
\<close>

theorem serial_panic_counterexample:
  "serialExecutor_Execute (instrument [returning ''a'', failing ''boom'', returning ''c'']) ((), []) =
     (Inl (PanicValue (Foreign ''boom'')), ((), [0, 1]))
   \<and> \<not> is_GeneratorError (Foreign ''boom'')"
  by (simp add: serialExecutor_Execute_run_in_order instrument_def traced_def returning_def failing_def
      enumerate_eq_zip upt_rec)

text \<open>
  Claim C4, amended. If the generator at index \<open>k\<close> is the first to fail, the
  serial executor stops there: the generators \<open>0, ..., k\<close> have been called, once each
  and in order, none after \<open>k\<close> is called, no string is returned, and the outcome is
  the failing generator's own panic, unchanged.
\<close>

theorem serial_stops_at_first_panic:
  assumes "run_in_order pre w = (Inr outs, w1)" and "Generate g w1 = (Inl p, w2)"
  shows "serialExecutor_Execute (pre @ g # post) w = (Inl p, w2)
       \<and> serialExecutor_Execute (instrument (pre @ g # post)) (w, []) =
           (Inl p, (w2, [0..<Suc (length pre)]))"
  using run_in_order_stops [OF assms] instrument_stops [OF assms]
  by (simp add: serialExecutor_Execute_run_in_order)

theorem serial_stops_at_first_panic_witness:
  "serialExecutor_Execute [returning ''a'', failing ''boom'', returning ''c''] () =
     (Inl (PanicValue (Foreign ''boom'')), ())
   \<and> serialExecutor_Execute (instrument [returning ''a'', failing ''boom'', returning ''c'']) ((), []) =
     (Inl (PanicValue (Foreign ''boom'')), ((), [0, 1]))"
proof -
  have a: "run_in_order [returning ''a''] () = (Inr [''a''], ())" by (simp add: returning_def)
  have b: "Generate (failing ''boom'') () = (Inl (PanicValue (Foreign ''boom'')), ())"
    by (simp add: failing_def)
  show ?thesis
    using serial_stops_at_first_panic [OF a b, of "[returning ''c'']"] by (simp add: upt_rec)
qed

section \<open>A failing generator under the fork-join executor\<close>

lemma wind_down_short:
  "grace \<le> length sched \<Longrightarrow>
   \<exists>w'. wind_down generators grace p sched results w = (Inl p, w')"
proof (induction sched arbitrary: grace results w)
  case Nil
  then show ?case by simp
next
  case (Cons i sched)
  show ?case
  proof (cases grace)
    case 0
    then show ?thesis by simp
  next
    case (Suc g')
    with Cons.prems have "g' \<le> length sched" by simp
    note ih = Cons.IH [OF this]
    obtain r w1 where g: "Generate (generators ! i) w = (r, w1)"
      by (cases "Generate (generators ! i) w")
    show ?thesis
    proof (cases r)
      case (Inl q)
      with g Suc ih [of results w1] show ?thesis by simp
    next
      case (Inr s)
      with g Suc ih [of "results[i := s]" w1] show ?thesis by simp
    qed
  qed
qed

lemma wind_down_enough:
  "length sched < grace \<Longrightarrow>
   \<exists>results' w'. wind_down generators grace p sched results w = (Inr results', w')"
proof (induction sched arbitrary: grace results w)
  case Nil
  then show ?case by (cases grace) simp_all
next
  case (Cons i sched)
  from Cons.prems obtain g' where grace: "grace = Suc g'" and g': "length sched < g'"
    by (cases grace) simp_all
  note ih = Cons.IH [OF g']
  obtain r w1 where g: "Generate (generators ! i) w = (r, w1)"
    by (cases "Generate (generators ! i) w")
  show ?case
  proof (cases r)
    case (Inl q)
    with g grace ih [of results w1] show ?thesis by simp
  next
    case (Inr s)
    with g grace ih [of "results[i := s]" w1] show ?thesis by simp
  qed
qed

lemma run_goroutines_enough:
  "length sched \<le> grace \<Longrightarrow>
   \<exists>results' w'. run_goroutines generators grace sched results w = (Inr results', w')"
proof (induction sched arbitrary: results w)
  case Nil
  show ?case by simp
next
  case (Cons i sched)
  obtain r w1 where g: "Generate (generators ! i) w = (r, w1)"
    by (cases "Generate (generators ! i) w")
  show ?case
  proof (cases r)
    case (Inl q)
    from Cons.prems have "length sched < grace" by simp
    from wind_down_enough [OF this, of generators q results w1] g Inl show ?thesis by simp
  next
    case (Inr s)
    from Cons.prems have "length sched \<le> grace" by simp
    from Cons.IH [OF this, of "results[i := s]" w1] g Inr show ?thesis by simp
  qed
qed

lemma run_goroutines_prefix:
  "run_in_order (map (\<lambda>i. generators ! i) pre) w = (Inr outs, w1) \<Longrightarrow>
   \<exists>results1. run_goroutines generators grace (pre @ rest) results w =
     run_goroutines generators grace rest results1 w1"
proof (induction pre arbitrary: results w outs)
  case Nil
  then show ?case by auto
next
  case (Cons i pre)
  obtain r wa where g: "Generate (generators ! i) w = (r, wa)"
    by (cases "Generate (generators ! i) w")
  with Cons.prems obtain s where r: "r = Inr s" by (cases r) auto
  obtain r2 wb where rest: "run_in_order (map (\<lambda>i. generators ! i) pre) wa = (r2, wb)"
    by (cases "run_in_order (map (\<lambda>i. generators ! i) pre) wa")
  with Cons.prems g r obtain ss where r2: "r2 = Inr ss" by (cases r2) auto
  from Cons.prems g r rest r2 have "wb = w1" by auto
  with rest r2 have "run_in_order (map (\<lambda>i. generators ! i) pre) wa = (Inr ss, w1)" by simp
  from Cons.IH [OF this, of "results[i := s]"] g r show ?case by simp
qed

lemma completions_first_panic:
  "run_in_order (map (\<lambda>i. generators ! i) pre) w = (Inr outs, w1) \<Longrightarrow>
   Generate (generators ! k) w1 = (Inl p, w2) \<Longrightarrow> k \<notin> set pre \<Longrightarrow>
   map_of (completions generators (pre @ k # post) w) k = Some []"
proof (induction pre arbitrary: w outs)
  case Nil
  then show ?case by simp
next
  case (Cons i pre)
  obtain r wa where g: "Generate (generators ! i) w = (r, wa)"
    by (cases "Generate (generators ! i) w")
  with Cons.prems(1) obtain s where r: "r = Inr s" by (cases r) auto
  obtain r2 wb where rest: "run_in_order (map (\<lambda>i. generators ! i) pre) wa = (r2, wb)"
    by (cases "run_in_order (map (\<lambda>i. generators ! i) pre) wa")
  with Cons.prems(1) g r obtain ss where r2: "r2 = Inr ss" by (cases r2) auto
  from Cons.prems(1) g r rest r2 have "wb = w1" by auto
  with rest r2 have a: "run_in_order (map (\<lambda>i. generators ! i) pre) wa = (Inr ss, w1)" by simp
  have k: "k \<notin> set pre" and ne: "i \<noteq> k" using Cons.prems(3) by auto
  from Cons.IH [OF a Cons.prems(2) k] g r ne show ?case by simp
qed

lemma Generate_instrument:
  "i < length generators \<Longrightarrow>
   Generate (instrument generators ! i) (w, log) =
     (case Generate (generators ! i) w of (r, w') \<Rightarrow> (r, (w', log @ [i])))"
  by (simp add: instrument_def nth_enumerate_eq Generate_traced)

lemma wind_down_log:
  "\<forall>i\<in>set sched. i < length generators \<Longrightarrow>
   wind_down (instrument generators) grace p sched results (w, log) = (Inr results', (w', log')) \<Longrightarrow>
   log' = log @ sched"
proof (induction sched arbitrary: grace results w log)
  case Nil
  then show ?case by (cases grace) simp_all
next
  case (Cons i sched)
  from Cons.prems(2) obtain g' where grace: "grace = Suc g'" by (cases grace) simp_all
  have i: "i < length generators" and b: "\<forall>j\<in>set sched. j < length generators"
    using Cons.prems(1) by simp_all
  obtain r w1 where g: "Generate (generators ! i) w = (r, w1)"
    by (cases "Generate (generators ! i) w")
  then have gi: "Generate (instrument generators ! i) (w, log) = (r, (w1, log @ [i]))"
    using i by (simp add: Generate_instrument)
  show ?case
  proof (cases r)
    case (Inl q)
    with Cons.prems(2) grace gi have
      "wind_down (instrument generators) g' p sched results (w1, log @ [i]) = (Inr results', (w', log'))"
      by simp
    from Cons.IH [OF b this] show ?thesis by simp
  next
    case (Inr s)
    with Cons.prems(2) grace gi have
      "wind_down (instrument generators) g' p sched (results[i := s]) (w1, log @ [i]) = (Inr results', (w', log'))"
      by simp
    from Cons.IH [OF b this] show ?thesis by simp
  qed
qed

lemma run_goroutines_log:
  "\<forall>i\<in>set sched. i < length generators \<Longrightarrow>
   run_goroutines (instrument generators) grace sched results (w, log) = (Inr results', (w', log')) \<Longrightarrow>
   log' = log @ sched"
proof (induction sched arbitrary: results w log)
  case Nil
  then show ?case by simp
next
  case (Cons i sched)
  have i: "i < length generators" and b: "\<forall>j\<in>set sched. j < length generators"
    using Cons.prems(1) by simp_all
  obtain r w1 where g: "Generate (generators ! i) w = (r, w1)"
    by (cases "Generate (generators ! i) w")
  then have gi: "Generate (instrument generators ! i) (w, log) = (r, (w1, log @ [i]))"
    using i by (simp add: Generate_instrument)
  show ?case
  proof (cases r)
    case (Inl q)
    with Cons.prems(2) gi have
      "wind_down (instrument generators) grace q sched results (w1, log @ [i]) = (Inr results', (w', log'))"
      by simp
    from wind_down_log [OF b this] show ?thesis by simp
  next
    case (Inr s)
    with Cons.prems(2) gi have
      "run_goroutines (instrument generators) grace sched (results[i := s]) (w1, log @ [i]) = (Inr results', (w', log'))"
      by simp
    from Cons.IH [OF b this] show ?thesis by simp
  qed
qed

lemma forkJoin_log:
  assumes "interleaving (length generators) sched" and "length sched \<le> grace"
  shows "snd (snd (forkJoinExecutor_Execute sched grace (instrument generators) (w, []))) = sched"
proof -
  let ?n = "length generators"
  have len: "length (instrument generators) = ?n" by (simp add: instrument_def)
  have b: "\<forall>i\<in>set sched. i < ?n" using assms(1) by (simp add: interleaving_iff)
  from run_goroutines_enough [OF assms(2), of "instrument generators" "replicate ?n []" "(w, [])"]
  obtain results' ww where
    "run_goroutines (instrument generators) grace sched (replicate ?n []) (w, []) = (Inr results', ww)"
    by blast
  moreover obtain w' log' where "ww = (w', log')" by (cases ww)
  ultimately have run:
    "run_goroutines (instrument generators) grace sched (replicate ?n []) (w, []) = (Inr results', (w', log'))"
    by simp
  from run_goroutines_log [OF b run] have "log' = sched" by simp
  with run len show ?thesis by (simp add: forkJoinExecutor_Execute_def)
qed

text \<open>
  Claim C5 as stated fails. \<^verbatim>\<open>Generate\<close> and \<^verbatim>\<open>Execute\<close> return a string only and
  no goroutine records a failure. With the generators \<open>a\<close>, a panic \<open>boom\<close>, \<open>c\<close>,
  when the two other units finish and \<^verbatim>\<open>Wait\<close> returns before the program has ended,
  \<^verbatim>\<open>Execute\<close> returns \<open>ac\<close>: the results of the successful units only, with no error.
  All three units ran.
\<close>

theorem forkJoin_panic_counterexample:
  "forkJoinExecutor_Execute [0, 1, 2] 2 (instrument [returning ''a'', failing ''boom'', returning ''c'']) ((), []) =
     (Inr ''ac'', ((), [0, 1, 2]))"
  by (simp add: forkJoinExecutor_Execute_def instrument_def traced_def returning_def failing_def
      enumerate_eq_zip upt_rec numeral_2_eq_2)

text \<open>
  Claim C5, amended. Let unit \<open>k\<close> be the first to fail in completion order, with the
  panic \<open>p\<close>, the units of \<open>pre\<close> having completed before it and those of \<open>post\<close>
  being scheduled after it. The fork-join executor builds no error of its own. If the
  program has ended before the units of \<open>post\<close> are done and \<^verbatim>\<open>Wait\<close> has returned,
  the outcome is the panic \<open>p\<close> itself. Otherwise \<^verbatim>\<open>Execute\<close> returns the
  concatenation, in task order, of what the units left in their slots, and the slot of
  unit \<open>k\<close> is empty. No failure cancels the other units: when the program lasts as
  many steps as there are units, every unit has been called, once and in schedule order.
\<close>

theorem forkJoin_panic_outcomes:
  assumes "interleaving (length generators) (pre @ k # post)"
    and "run_in_order (map (\<lambda>i. generators ! i) pre) w = (Inr outs, w1)"
    and "Generate (generators ! k) w1 = (Inl p, w2)"
  shows "(grace \<le> length post \<longrightarrow>
            fst (forkJoinExecutor_Execute (pre @ k # post) grace generators w) = Inl p)
       \<and> (length post < grace \<longrightarrow>
            fst (forkJoinExecutor_Execute (pre @ k # post) grace generators w) =
              Inr (concat (map (\<lambda>i. the (map_of (completions generators (pre @ k # post) w) i))
                     [0..<length generators]))
            \<and> map_of (completions generators (pre @ k # post) w) k = Some [])
       \<and> (length (pre @ k # post) \<le> grace \<longrightarrow>
            snd (snd (forkJoinExecutor_Execute (pre @ k # post) grace (instrument generators) (w, []))) =
              pre @ k # post)"
proof (intro conjI impI)
  let ?n = "length generators"
  let ?sched = "pre @ k # post"
  from run_goroutines_prefix [OF assms(2), of grace "k # post" "replicate ?n []"]
  obtain results1 where pre:
    "run_goroutines generators grace ?sched (replicate ?n []) w =
       run_goroutines generators grace (k # post) results1 w1" by blast
  have run: "run_goroutines generators grace ?sched (replicate ?n []) w =
      wind_down generators grace p post results1 w2"
    using pre assms(3) by simp
  {
    assume "grace \<le> length post"
    from wind_down_short [OF this, of generators p results1 w2] run
    show "fst (forkJoinExecutor_Execute ?sched grace generators w) = Inl p"
      by (auto simp: forkJoinExecutor_Execute_def)
  }
  {
    assume "length post < grace"
    from wind_down_enough [OF this, of generators p results1 w2] run
    obtain results' w' where
      "run_goroutines generators grace ?sched (replicate ?n []) w = (Inr results', w')" by auto
    then have e: "forkJoinExecutor_Execute ?sched grace generators w = (Inr (concat results'), w')"
      by (simp add: forkJoinExecutor_Execute_def)
    from forkJoin_slots [OF assms(1) e] e
    show "fst (forkJoinExecutor_Execute ?sched grace generators w) =
        Inr (concat (map (\<lambda>i. the (map_of (completions generators ?sched w) i)) [0..<?n]))"
      by simp
  }
  {
    assume "length post < grace"
    have "k \<notin> set pre" using assms(1) by (simp add: interleaving_iff)
    with assms(2) assms(3) show "map_of (completions generators ?sched w) k = Some []"
      by (rule completions_first_panic)
  }
  {
    assume "length ?sched \<le> grace"
    with assms(1)
    show "snd (snd (forkJoinExecutor_Execute ?sched grace (instrument generators) (w, []))) = ?sched"
      by (rule forkJoin_log)
  }
qed

theorem forkJoin_panic_outcomes_witness:
  "fst (forkJoinExecutor_Execute [0, 1, 2] 1 [returning ''a'', failing ''boom'', returning ''c''] ()) =
     Inl (PanicValue (Foreign ''boom''))
   \<and> fst (forkJoinExecutor_Execute [0, 1, 2] 3 [returning ''a'', failing ''boom'', returning ''c''] ()) =
     Inr ''ac''
   \<and> snd (snd (forkJoinExecutor_Execute [0, 1, 2] 3
        (instrument [returning ''a'', failing ''boom'', returning ''c'']) ((), []))) = [0, 1, 2]"
proof -
  let ?gs = "[returning ''a'', failing ''boom'', returning ''c''] :: unit Generator list"
  have i: "interleaving (length ?gs) ([0] @ 1 # [2])" by (auto simp: interleaving_iff)
  have a: "run_in_order (map (\<lambda>i. ?gs ! i) [0]) () = (Inr [''a''], ())"
    by (simp add: returning_def)
  have b: "Generate (?gs ! 1) () = (Inl (PanicValue (Foreign ''boom'')), ())"
    by (simp add: failing_def)
  have c: "completions ?gs ([0] @ 1 # [2]) () = [(0, ''a''), (1, []), (2, ''c'')]"
    by (simp add: returning_def failing_def)
  from forkJoin_panic_outcomes [OF i a b, of 1] forkJoin_panic_outcomes [OF i a b, of 3] c
  show ?thesis by (simp add: upt_rec)
qed

section \<open>Repetition\<close>

lemma fill_loop_make:
  "0 \<le> n \<Longrightarrow> fill_loop (replicate (nat n) None) generator 0 n = replicate (nat n) generator"
  using fill_loop_replicate [of 0 n "replicate (nat n) None" generator] by simp

lemma executeGeneratorRepeatedly_replicate:
  "0 \<le> n \<Longrightarrow>
   executeGeneratorRepeatedly executor generator n w = executor (replicate (nat n) generator) w"
  by (simp add: executeGeneratorRepeatedly_def make_generators_def fill_loop_make)

lemma serialExecutor_Execute_Nil: "serialExecutor_Execute [] w = (Inr [], w)"
  by (simp add: serialExecutor_Execute_run_in_order)

lemma interleaving_0: "interleaving 0 sched \<longleftrightarrow> sched = []"
  by (auto simp: interleaving_iff)

lemma forkJoinExecutor_Execute_Nil: "forkJoinExecutor_Execute [] grace [] w = (Inr [], w)"
  by (simp add: forkJoinExecutor_Execute_def)

text \<open>
  Claim C8. For \<open>n \<ge> 0\<close> the task list that \<^verbatim>\<open>executeGeneratorRepeatedly\<close>
  builds is \<open>n\<close> copies of the generator, and its outcome is the outcome of the given
  executor on that list. For \<open>n = 0\<close> both executors return the empty string and
  leave the world untouched, so the generator is not called. For \<open>n = 3\<close> and a
  generator that returns \<open>x\<close> the result is \<open>xxx\<close> under the serial executor and
  under the fork-join executor with any schedule.
\<close>

theorem executeGeneratorRepeatedly_delegates:
  "(0 \<le> n \<longrightarrow>
      fill_loop (replicate (nat n) None) generator 0 n = replicate (nat n) generator
      \<and> executeGeneratorRepeatedly executor generator n w =
          executor (replicate (nat n) generator) w)
   \<and> executeGeneratorRepeatedly serialExecutor_Execute generator 0 w = (Inr [], w)
   \<and> (interleaving 0 sched0 \<longrightarrow>
        executeGeneratorRepeatedly (forkJoinExecutor_Execute sched0 grace) generator 0 w = (Inr [], w))
   \<and> fst (executeGeneratorRepeatedly serialExecutor_Execute (returning ''x'') 3 w) = Inr ''xxx''
   \<and> (interleaving 3 sched \<longrightarrow>
        fst (executeGeneratorRepeatedly (forkJoinExecutor_Execute sched grace) (returning ''x'') 3 w) =
          Inr ''xxx'')"
proof -
  let ?xs = "replicate (nat 3) (returning ''x'') :: 'a Generator list"
  let ?outs = "replicate (nat 3) ''x''"
  have fixed: "\<forall>i<length ?xs. \<forall>w. fst (Generate (?xs ! i) w) = Inr (?outs ! i)"
    by (simp add: returning_def)
  have len: "length ?outs = length ?xs" by simp
  have c: "concat ?outs = ''xxx''" by (simp add: numeral_3_eq_3)
  have s: "fst (serialExecutor_Execute ?xs w) = Inr ''xxx''"
    by (simp add: serialExecutor_Execute_run_in_order returning_def numeral_3_eq_3)
  have f: "interleaving 3 sched \<longrightarrow> fst (forkJoinExecutor_Execute sched grace ?xs w) = Inr ''xxx''"
  proof
    assume "interleaving 3 sched"
    then have "interleaving (length ?xs) sched" by simp
    from forkJoin_fixed [OF this len fixed] c
    show "fst (forkJoinExecutor_Execute sched grace ?xs w) = Inr ''xxx''"
      by simp
  qed
  show ?thesis
    using s f
    by (simp add: executeGeneratorRepeatedly_replicate fill_loop_make serialExecutor_Execute_Nil
        interleaving_0 forkJoinExecutor_Execute_Nil)
qed

theorem executeGeneratorRepeatedly_delegates_witness:
  "fill_loop (replicate 2 None) (returning ''g'') 0 2 = [returning ''g'', returning ''g'' :: unit Generator]
   \<and> executeGeneratorRepeatedly serialExecutor_Execute (returning ''g'') 2 () = (Inr ''gg'', ())
   \<and> executeGeneratorRepeatedly (forkJoinExecutor_Execute [] 0) (returning ''g'') 0 () = (Inr [], ())
   \<and> fst (executeGeneratorRepeatedly (forkJoinExecutor_Execute [1, 2, 0] 0) (returning ''x'') 3 ()) = Inr ''xxx''"
proof -
  have n: "(0::int) \<le> 2" by simp
  have i0: "interleaving 0 []" by (simp add: interleaving_0)
  have i3: "interleaving 3 [1, 2, 0]" by (auto simp: interleaving_iff)
  have e: "serialExecutor_Execute [returning ''g'', returning ''g''] () = (Inr ''gg'', ())"
    by (simp add: serialExecutor_Execute_run_in_order returning_def)
  show ?thesis
    using executeGeneratorRepeatedly_delegates
      [of 2 "returning ''g''" serialExecutor_Execute "()" "[]" 0 "[1, 2, 0]"] n i0 i3 e
    by (simp add: numeral_2_eq_2)
qed

section \<open>The empty task list\<close>

text \<open>
  Claim C9. On the empty list the serial executor returns the empty string; the
  fork-join executor launches no unit, its only schedule is the empty one, and it returns
  the empty string. Neither panics, neither touches the world.
\<close>

theorem empty_task_list:
  "serialExecutor_Execute [] w = (Inr [], w)
   \<and> launch (length ([] :: 'w Generator list)) 0 [] = []
   \<and> (interleaving (length ([] :: 'w Generator list)) sched \<longrightarrow>
        sched = [] \<and> forkJoinExecutor_Execute sched grace ([] :: 'w Generator list) w = (Inr [], w))"
  by (simp add: serialExecutor_Execute_Nil launch_upt interleaving_0 forkJoinExecutor_Execute_Nil)

theorem empty_task_list_witness:
  "interleaving 0 [] \<and> forkJoinExecutor_Execute [] 0 ([] :: unit Generator list) () = (Inr [], ())"
proof -
  have i: "interleaving (length ([] :: unit Generator list)) []" by (simp add: interleaving_0)
  with empty_task_list [of "()" "[]" 0] show ?thesis by simp
qed

section \<open>A negative repeat count\<close>

text \<open>
  Claim C10. For \<open>n < 0\<close> \<^verbatim>\<open>executeGeneratorRepeatedly\<close> panics in \<^verbatim>\<open>make\<close>:
  no string is returned and the executor is not reached.
\<close>

theorem executeGeneratorRepeatedly_negative_panics:
  "n < 0 \<Longrightarrow> executeGeneratorRepeatedly executor generator n w = (Inl MakeSliceLenOutOfRange, w)"
  by (simp add: executeGeneratorRepeatedly_def make_generators_def)

theorem executeGeneratorRepeatedly_negative_panics_witness:
  "executeGeneratorRepeatedly serialExecutor_Execute (returning ''x'') (- 1) () =
     (Inl MakeSliceLenOutOfRange, ())"
proof -
  have "(- 1 :: int) < 0" by simp
  then show ?thesis by (rule executeGeneratorRepeatedly_negative_panics)
qed

end
